theory Spec2Isabelle
  imports Complex_Main "HOL-Library.Log_Nat"
begin

section \<open>Data model\<close>

text \<open>
  The graph of \<^verbatim>\<open>MWISSolver\<close>: \<^verbatim>\<open>{ nodes, edges }\<close>, where a node is the object
  \<^verbatim>\<open>{ id, x, y, weight, radius }\<close> and an edge is the two-element array \<^verbatim>\<open>[u, v]\<close>
  of node indices. JavaScript numbers that hold indices and counts are modelled as
  \<open>nat\<close> (they stay far below \<open>2^53\<close>, where double arithmetic on integers is
  exact). Weights, coordinates and random draws are doubles: they are modelled as
  \<open>real\<close>, and every arithmetic operation of the source on them is followed by
  \<open>round_double\<close>, the rounding of IEEE double arithmetic. A number that may be
  \<^verbatim>\<open>NaN\<close> is an \<open>option\<close>, with \<open>None\<close> for \<^verbatim>\<open>NaN\<close>.
\<close>

subsection \<open>Double arithmetic\<close>

text \<open>
  An operation on doubles returns the exact result rounded to the nearest number with a
  53-bit significand, a tie going to the even significand. \<open>binade a\<close> is the
  exponent \<open>e\<close> with \<open>2^e \<le> a < 2^(e + 1)\<close>, so that \<open>x\<close> is rounded to a
  multiple of \<open>2^(e - 52)\<close>. The exponent range is not bounded here: overflow to
  \<^verbatim>\<open>Infinity\<close> (beyond about \<open>1.8 * 10^308\<close>) and the coarser rounding of
  subnormal numbers (below about \<open>2.2 * 10^-308\<close>) are left out.
\<close>

definition round_even :: "real \<Rightarrow> int" where
  "round_even y =
     (let f = \<lfloor>y\<rfloor>
      in if y - of_int f < 1 / 2 then f
         else if 1 / 2 < y - of_int f then f + 1
         else if even f then f else f + 1)"

definition pow2 :: "int \<Rightarrow> real" where
  "pow2 k = (if 0 \<le> k then 2 ^ nat k else 1 / 2 ^ nat (- k))"

definition binade :: "real \<Rightarrow> int" where
  "binade a = (if 1 \<le> a then bitlen \<lfloor>a\<rfloor> - 1 else - bitlen (\<lceil>1 / a\<rceil> - 1))"

definition round_double :: "real \<Rightarrow> real" where
  "round_double x =
     (if x = 0 then 0
      else let u = pow2 (binade \<bar>x\<bar> - 52) in of_int (round_even (x / u)) * u)"

record node =
  node_id :: nat
  node_x :: real
  node_y :: real
  weight :: real
  radius :: real

record graph =
  nodes :: "node list"
  edges :: "(nat \<times> nat) list"

datatype error = TypeError | InvalidArgument

text \<open>
  \<^verbatim>\<open>Math.random()\<close> is ambient state in the source. Here the sequence of values it
  returns is a parameter: the \<open>c\<close>-th call returns \<open>rnd c\<close>, and the number of calls
  made so far is threaded through the generator.
\<close>

type_synonym random_source = "nat \<Rightarrow> real"

definition const_source :: "real \<Rightarrow> random_source" where
  "const_source r = (\<lambda>c. r)"

section \<open>Graph generation: \<^verbatim>\<open>createGraph(n, p, type)\<close>\<close>

text \<open>The node loop: three draws per node, in the order \<^verbatim>\<open>x\<close>, \<^verbatim>\<open>y\<close>, \<^verbatim>\<open>weight\<close>.\<close>

definition push_node ::
  "random_source \<Rightarrow> real \<Rightarrow> real \<Rightarrow> nat \<Rightarrow> node list \<times> nat \<Rightarrow> node list \<times> nat" where
  "push_node rnd cw ch i = (\<lambda>(ns, c).
     (ns @ [\<lparr>node_id = i,
             node_x = round_double (round_double (rnd c * round_double (cw - 100)) + 50),
             node_y = round_double (round_double (rnd (c + 1) * round_double (ch - 100)) + 50),
             weight = round_double (round_double (rnd (c + 2) * 2) + 1 / 2),
             radius = 20\<rparr>], c + 3))"

definition generate_nodes :: "random_source \<Rightarrow> real \<Rightarrow> real \<Rightarrow> nat \<Rightarrow> node list \<times> nat" where
  "generate_nodes rnd cw ch n = fold (push_node rnd cw ch) [0..<n] ([], 0)"

text \<open>The regular branch, with \<^verbatim>\<open>k = 3\<close>: \<^verbatim>\<open>edges.push([i, (i + j) % n])\<close> for \<open>j = 1..k\<close>.\<close>

definition regular_edges :: "nat \<Rightarrow> (nat \<times> nat) list" where
  "regular_edges n =
     fold (\<lambda>i es. fold (\<lambda>j es'. es' @ [(i, (i + j) mod n)]) [1..<3 + 1] es) [0..<n] []"

text \<open>
  The scale-free branch, with \<^verbatim>\<open>m0 = 3\<close> and \<^verbatim>\<open>m = 2\<close>. The seed loop runs whatever
  \<open>n\<close> is. \<open>count_degrees\<close> is \<^verbatim>\<open>new Array(i).fill(0)\<close> followed by the guarded
  increments; \<open>pick\<close> is the \<^verbatim>\<open>while (r > degrees[selected])\<close> loop, which also stops
  when \<^verbatim>\<open>selected\<close> leaves the array (the comparison with \<^verbatim>\<open>undefined\<close> is false).
\<close>

definition seed_edges :: "(nat \<times> nat) list" where
  "seed_edges = fold (\<lambda>i es. fold (\<lambda>j es'. es' @ [(i, j)]) [i + 1..<3] es) [0..<3] []"

definition count_degrees :: "nat \<Rightarrow> (nat \<times> nat) list \<Rightarrow> nat list" where
  "count_degrees i es =
     fold (\<lambda>(u, v) ds.
            let ds1 = (if u < i then ds[u := ds ! u + 1] else ds)
            in (if v < i then ds1[v := ds1 ! v + 1] else ds1))
          es (replicate i 0)"

function pick :: "nat list \<Rightarrow> real \<Rightarrow> nat \<Rightarrow> nat" where
  "pick ds r selected =
     (if selected < length ds \<and> r > real (ds ! selected)
      then pick ds (round_double (r - real (ds ! selected))) (selected + 1)
      else selected)"
  by pat_completeness auto
termination
  by (relation "measure (\<lambda>(ds, r, selected). length ds - selected)") auto

declare pick.simps [simp del]

definition attach ::
  "random_source \<Rightarrow> nat \<Rightarrow> (nat \<times> nat) list \<times> nat \<Rightarrow> (nat \<times> nat) list \<times> nat" where
  "attach rnd i = (\<lambda>(es, c).
     let ds = count_degrees i es;
         totalDegree = fold (\<lambda>b a. a + b) ds 0
     in fold (\<lambda>j (es', c').
               let r = round_double (rnd c' * real totalDegree);
                   selected = pick ds r 0
               in (es' @ [(i, selected)], c' + 1))
             [0..<2] (es, c))"

definition scale_free_edges :: "random_source \<Rightarrow> nat \<Rightarrow> nat \<Rightarrow> (nat \<times> nat) list" where
  "scale_free_edges rnd n c = fst (fold (attach rnd) [3..<n] (seed_edges, c))"

text \<open>The random branch: one draw per pair \<open>i < j\<close>, compared with \<open>p\<close>.\<close>

definition random_edges :: "random_source \<Rightarrow> real \<Rightarrow> nat \<Rightarrow> nat \<Rightarrow> (nat \<times> nat) list" where
  "random_edges rnd p n c =
     fst (fold (\<lambda>i. fold (\<lambda>j (es, c'). (if rnd c' < p then es @ [(i, j)] else es, c' + 1))
                          [i + 1..<n])
               [0..<n] ([], c))"

text \<open>
  \<open>cw\<close> and \<open>ch\<close> are \<^verbatim>\<open>this.canvas.width\<close> and \<^verbatim>\<open>this.canvas.height\<close>. Any
  \<^verbatim>\<open>type\<close> other than the two named strings takes the random branch.
\<close>

definition createGraph ::
  "random_source \<Rightarrow> real \<Rightarrow> real \<Rightarrow> nat \<Rightarrow> real \<Rightarrow> string \<Rightarrow> graph" where
  "createGraph rnd cw ch n p type =
     (let (ns, c) = generate_nodes rnd cw ch n;
          es = (if type = ''regular'' then regular_edges n
                else if type = ''scale-free'' then scale_free_edges rnd n c
                else random_edges rnd p n c)
      in \<lparr>nodes = ns, edges = es\<rparr>)"

text \<open>
  \<^verbatim>\<open>createGraph\<close> contains no \<^verbatim>\<open>throw\<close> and no operation that can fail on a count
  \<open>n\<close> and a number \<open>p\<close>: seen as a result value, every call returns.
\<close>

definition createGraph_result ::
  "random_source \<Rightarrow> real \<Rightarrow> real \<Rightarrow> nat \<Rightarrow> real \<Rightarrow> string \<Rightarrow> error + graph" where
  "createGraph_result rnd cw ch n p type = Inr (createGraph rnd cw ch n p type)"

section \<open>The greedy heuristic: \<^verbatim>\<open>findMWISSolution(algorithm)\<close>\<close>

text \<open>
  \<^verbatim>\<open>degrees[u]++\<close> on the array \<^verbatim>\<open>new Array(nodes.length).fill(0)\<close>. Inside the array
  the entry is incremented (\<^verbatim>\<open>NaN\<close> stays \<^verbatim>\<open>NaN\<close>). Beyond its end JavaScript
  extends the array: the new entry is \<^verbatim>\<open>undefined + 1 = NaN\<close>, and the entries
  skipped over are holes, which read as \<^verbatim>\<open>undefined\<close>; both are \<open>None\<close> here.
\<close>

definition incr :: "nat option list \<Rightarrow> nat \<Rightarrow> nat option list" where
  "incr ds u =
     (if u < length ds then ds[u := map_option Suc (ds ! u)]
      else ds @ replicate (u - length ds) None @ [None])"

definition degrees :: "graph \<Rightarrow> nat option list" where
  "degrees g =
     fold (\<lambda>(u, v) ds. incr (incr ds u) v) (edges g) (replicate (length (nodes g)) (Some 0))"

definition read_degree :: "nat option list \<Rightarrow> nat \<Rightarrow> nat option" where
  "read_degree ds i = (if i < length ds then ds ! i else None)"

record node_score =
  score_id :: nat
  score :: "real option"

definition nodeScores :: "graph \<Rightarrow> node_score list" where
  "nodeScores g =
     map (\<lambda>(v, i). \<lparr>score_id = i,
                     score = map_option (\<lambda>d. round_double (weight v / (real d + 1)))
                               (read_degree (degrees g) i)\<rparr>)
         (zip (nodes g) [0..<length (nodes g)])"

text \<open>
  The comparator \<^verbatim>\<open>(a, b) => b.score - a.score\<close>; a \<^verbatim>\<open>NaN\<close> result is read as \<open>+0\<close>
  by \<^verbatim>\<open>Array.prototype.sort\<close>.
\<close>

definition compare_scores :: "node_score \<Rightarrow> node_score \<Rightarrow> real" where
  "compare_scores a b =
     (case (score b, score a) of (Some sb, Some sa) \<Rightarrow> round_double (sb - sa) | _ \<Rightarrow> 0)"

text \<open>
  \<^verbatim>\<open>Array.prototype.sort\<close> is a stable sort (ECMAScript 2019 and later). For a
  comparator that is a consistent ordering every stable sort returns the same array;
  the model is the stable insertion sort.
\<close>

fun insert_by :: "('a \<Rightarrow> 'a \<Rightarrow> real) \<Rightarrow> 'a \<Rightarrow> 'a list \<Rightarrow> 'a list" where
  "insert_by cmp a [] = [a]"
| "insert_by cmp a (b # bs) = (if cmp a b \<le> 0 then a # b # bs else b # insert_by cmp a bs)"

definition sort_by :: "('a \<Rightarrow> 'a \<Rightarrow> real) \<Rightarrow> 'a list \<Rightarrow> 'a list" where
  "sort_by cmp as = foldr (insert_by cmp) as []"

text \<open>
  \<open>selected\<close> is a JavaScript \<^verbatim>\<open>Set\<close>, which keeps insertion order and ignores a
  second \<^verbatim>\<open>add\<close> of the same value: a list. \<open>conflicts\<close> is only tested for
  membership: a set.
\<close>

definition set_add :: "nat list \<Rightarrow> nat \<Rightarrow> nat list" where
  "set_add sel i = (if i \<in> set sel then sel else sel @ [i])"

definition mark_neighbors :: "(nat \<times> nat) list \<Rightarrow> nat \<Rightarrow> nat set \<Rightarrow> nat set" where
  "mark_neighbors es i conflicts =
     fold (\<lambda>(u, v) cs.
            let cs1 = (if u = i then insert v cs else cs)
            in (if v = i then insert u cs1 else cs1))
          es conflicts"

definition select_step ::
  "(nat \<times> nat) list \<Rightarrow> node_score \<Rightarrow> nat list \<times> nat set \<Rightarrow> nat list \<times> nat set" where
  "select_step es a = (\<lambda>(selected, conflicts).
     if score_id a \<notin> conflicts
     then (set_add selected (score_id a), mark_neighbors es (score_id a) conflicts)
     else (selected, conflicts))"

definition greedy :: "(nat \<times> nat) list \<Rightarrow> node_score list \<Rightarrow> nat list \<times> nat set" where
  "greedy es scores = fold (select_step es) scores ([], {})"

definition findMWISSolution :: "string \<Rightarrow> graph \<Rightarrow> nat list" where
  "findMWISSolution algorithm g = fst (greedy (edges g) (sort_by compare_scores (nodeScores g)))"

text \<open>
  The method on the solver object: \<^verbatim>\<open>this.graph\<close> may be \<^verbatim>\<open>null\<close>, and then
  \<^verbatim>\<open>this.graph.nodes\<close> throws a \<^verbatim>\<open>TypeError\<close>. The object is returned with the result.
\<close>

record solver =
  canvas_width :: real
  canvas_height :: real
  this_graph :: "graph option"
  this_solution :: "nat list option"

definition findMWISSolution_method :: "string \<Rightarrow> solver \<Rightarrow> (error + nat list) \<times> solver" where
  "findMWISSolution_method algorithm this =
     (case this_graph this of
        None \<Rightarrow> (Inl TypeError, this)
      | Some g \<Rightarrow> (Inr (findMWISSolution algorithm g), this))"

text \<open>
  \<^verbatim>\<open>calculateTotalWeight(solution)\<close>: a \<^verbatim>\<open>reduce\<close> from \<open>0\<close> (\<open>acc\<close> is the accumulator \<^verbatim>\<open>sum\<close>); reading \<^verbatim>\<open>.weight\<close> of a
  node index outside the array throws a \<^verbatim>\<open>TypeError\<close>.
\<close>

fun calculateTotalWeight_from :: "graph \<Rightarrow> real \<Rightarrow> nat list \<Rightarrow> error + real" where
  "calculateTotalWeight_from g acc [] = Inr acc"
| "calculateTotalWeight_from g acc (nodeId # rest) =
     (if nodeId < length (nodes g)
      then calculateTotalWeight_from g (round_double (acc + weight (nodes g ! nodeId))) rest
      else Inl TypeError)"

definition calculateTotalWeight :: "graph \<Rightarrow> nat list \<Rightarrow> error + real" where
  "calculateTotalWeight g solution = calculateTotalWeight_from g 0 solution"

section \<open>Concrete inputs: the path graph of the scenario and its variants\<close>

definition path_node :: "nat \<Rightarrow> real \<Rightarrow> node" where
  "path_node i w = \<lparr>node_id = i, node_x = 50, node_y = 50, weight = w, radius = 20\<rparr>"

definition path4 :: graph where
  "path4 = \<lparr>nodes = [path_node 0 1, path_node 1 5, path_node 2 1, path_node 3 1],
            edges = [(0, 1), (1, 2), (2, 3)]\<rparr>"

definition path4_moved :: graph where
  "path4_moved = \<lparr>nodes = map (\<lambda>v. v\<lparr>node_x := 300, node_y := 120\<rparr>) (nodes path4),
                  edges = edges path4\<rparr>"

text \<open>
  A path on three nodes whose first two scores tie in double arithmetic: the weight of
  node 0 is the double nearest to \<open>2/3\<close>, and half of it is the double nearest to
  \<open>1/3\<close>, the score of node 1. \<open>tied3_order\<close> is its score list arranged by
  descending score, the tie by ascending index.
\<close>

definition tied3 :: graph where
  "tied3 = \<lparr>nodes = [path_node 0 (6004799503160661 / 9007199254740992), path_node 1 1,
                     path_node 2 (1 / 2)],
            edges = [(0, 1), (1, 2)]\<rparr>"

definition tied3_order :: "node_score list" where
  "tied3_order =
     [\<lparr>score_id = 0, score = Some (6004799503160661 / 18014398509481984)\<rparr>,
      \<lparr>score_id = 1, score = Some (6004799503160661 / 18014398509481984)\<rparr>,
      \<lparr>score_id = 2, score = Some (1 / 4)\<rparr>]"

definition isolated2 :: graph where
  "isolated2 = \<lparr>nodes = [path_node 0 1, path_node 1 2], edges = []\<rparr>"

definition solver_with :: "real \<Rightarrow> nat list option \<Rightarrow> graph \<Rightarrow> solver" where
  "solver_with cw sol g =
     \<lparr>canvas_width = cw, canvas_height = 400, this_graph = Some g, this_solution = sol\<rparr>"

section \<open>Notions used to state the properties\<close>

text \<open>
  The nodes joined to \<open>i\<close> by an edge entry, in either position; the number of edge
  entries incident to \<open>i\<close> (an entry \<^verbatim>\<open>[i, i]\<close> counts twice, as in the source's
  degree count); and the order in which the heuristic is said to visit the nodes:
  by descending score, equal scores by ascending index.
\<close>

definition neighbors :: "(nat \<times> nat) list \<Rightarrow> nat \<Rightarrow> nat set" where
  "neighbors es i = {v. (i, v) \<in> set es} \<union> {u. (u, i) \<in> set es}"

definition incidences :: "(nat \<times> nat) list \<Rightarrow> nat \<Rightarrow> nat" where
  "incidences es i = length (filter (\<lambda>e. fst e = i) es) + length (filter (\<lambda>e. snd e = i) es)"

definition precedes :: "node_score \<Rightarrow> node_score \<Rightarrow> bool" where
  "precedes a b =
     (case (score a, score b) of
        (Some sa, Some sb) \<Rightarrow> sa > sb \<or> (sa = sb \<and> score_id a < score_id b)
      | _ \<Rightarrow> False)"

text \<open>
  An edge list over \<open>m\<close> nodes is valid when both endpoints of every entry are
  below \<open>m\<close> and differ.
\<close>

definition valid_edges :: "nat \<Rightarrow> (nat \<times> nat) list \<Rightarrow> bool" where
  "valid_edges m es = (\<forall>(u, v)\<in>set es. u < m \<and> v < m \<and> u \<noteq> v)"

text \<open>
  The loop invariant of the greedy pass, for the set \<open>seen\<close> of indices visited so
  far: the conflicts are exactly the neighbours of the selected nodes, every visited
  node is selected or conflicted, and the selected nodes are pairwise non-adjacent.
\<close>

definition greedy_inv :: "(nat \<times> nat) list \<Rightarrow> nat set \<Rightarrow> nat list \<times> nat set \<Rightarrow> bool" where
  "greedy_inv es seen st =
     (snd st = (\<Union>s\<in>set (fst st). neighbors es s) \<and>
      set (fst st) \<subseteq> seen \<and> seen \<subseteq> set (fst st) \<union> snd st \<and>
      (\<forall>u\<in>set (fst st). \<forall>v\<in>set (fst st). u \<noteq> v \<longrightarrow> v \<notin> neighbors es u) \<and>
      distinct (fst st))"

section \<open>Double rounding: evaluation and sign\<close>

lemma bitlen_numeral: "bitlen (numeral n) = bitlen (numeral n div 2) + 1"
  by (subst compute_bitlen) simp

lemma bitlen_one: "bitlen 1 = 1"
  by (subst compute_bitlen) simp

lemmas double_eval =
  round_double_def binade_def pow2_def round_even_def Let_def bitlen_numeral bitlen_one

lemma pow2_powr: "pow2 k = 2 powr real_of_int k"
proof (cases "0 \<le> k")
  case True
  then have "2 powr real_of_int k = 2 powr real (nat k)" by simp
  also have "\<dots> = 2 ^ nat k" by (rule powr_realpow) simp
  finally show ?thesis using True by (simp add: pow2_def)
next
  case False
  then have "2 powr real_of_int k = 2 powr (- real (nat (- k)))" by simp
  also have "\<dots> = 1 / 2 powr real (nat (- k))" by (simp only: powr_minus_divide)
  also have "2 powr real (nat (- k)) = 2 ^ nat (- k)" by (rule powr_realpow) simp
  finally show ?thesis using False by (simp add: pow2_def)
qed

lemma pow2_pos: "0 < pow2 k"
  by (simp add: pow2_powr)

lemma pow2_add: "pow2 (j + k) = pow2 j * pow2 k"
  by (simp add: pow2_powr powr_add)

lemma pow2_nat: "pow2 (int n) = 2 ^ n"
  by (simp add: pow2_def)

lemma binade_le:
  assumes "0 < a"
  shows "pow2 (binade a) \<le> a"
proof (cases "1 \<le> a")
  case True
  then have pos: "0 < \<lfloor>a\<rfloor>" by simp
  from bitlen_bounds [OF pos] have "2 ^ nat (bitlen \<lfloor>a\<rfloor> - 1) \<le> \<lfloor>a\<rfloor>" by simp
  then have "real_of_int (2 ^ nat (bitlen \<lfloor>a\<rfloor> - 1)) \<le> real_of_int \<lfloor>a\<rfloor>"
    by (simp only: of_int_le_iff)
  also have "\<dots> \<le> a" by simp
  finally have "2 ^ nat (bitlen \<lfloor>a\<rfloor> - 1) \<le> a" by simp
  moreover have "0 \<le> bitlen \<lfloor>a\<rfloor> - 1"
    using pos bitlen_ge_iff_power [of 1 "\<lfloor>a\<rfloor>"] by simp
  ultimately show ?thesis using True by (simp add: binade_def pow2_def)
next
  case False
  let ?n = "\<lceil>1 / a\<rceil> - 1"
  have n0: "0 \<le> ?n"
  proof -
    have "0 < 1 / a" using assms by simp
    then have "0 < \<lceil>1 / a\<rceil>" by (simp add: less_ceiling_iff)
    then show ?thesis by simp
  qed
  have lt: "?n < 2 ^ nat (bitlen ?n)"
  proof (cases "?n = 0")
    case True
    then show ?thesis by simp
  next
    case False
    with n0 have "0 < ?n" by arith
    from bitlen_bounds [OF this] show ?thesis by simp
  qed
  then have "\<lceil>1 / a\<rceil> \<le> 2 ^ nat (bitlen ?n)" by simp
  then have "real_of_int \<lceil>1 / a\<rceil> \<le> real_of_int (2 ^ nat (bitlen ?n))"
    by (simp only: of_int_le_iff)
  then have "real_of_int \<lceil>1 / a\<rceil> \<le> 2 ^ nat (bitlen ?n)"
    by (simp only: of_int_power of_int_numeral)
  moreover have "1 / a \<le> real_of_int \<lceil>1 / a\<rceil>" by (rule le_of_int_ceiling)
  ultimately have "1 / a \<le> 2 ^ nat (bitlen ?n)" by (rule order_trans [rotated])
  then have "1 \<le> 2 ^ nat (bitlen ?n) * a" using assms by (simp add: field_simps)
  then have "1 / 2 ^ nat (bitlen ?n) \<le> a" by (simp add: field_simps)
  moreover have "pow2 (- bitlen ?n) = 1 / 2 ^ nat (bitlen ?n)"
    using bitlen_nonneg [of ?n] by (cases "bitlen ?n = 0") (simp_all add: pow2_def)
  ultimately show ?thesis using False by (simp add: binade_def)
qed

lemma round_even_bounds: "\<lfloor>y\<rfloor> \<le> round_even y \<and> round_even y \<le> \<lfloor>y\<rfloor> + 1"
  by (simp add: round_even_def Let_def)

lemma round_even_le_int: "y \<le> of_int m \<Longrightarrow> round_even y \<le> m"
proof -
  assume a: "y \<le> of_int m"
  show ?thesis
  proof (cases "y = of_int m")
    case True
    then show ?thesis by (simp add: round_even_def)
  next
    case False
    with a have "y < of_int m" by simp
    then have "\<lfloor>y\<rfloor> < m" by (simp add: floor_less_iff)
    then show ?thesis using round_even_bounds [of y] by linarith
  qed
qed

lemma scaled_ge:
  assumes "x \<noteq> 0"
  shows "2 ^ 52 \<le> \<bar>x\<bar> / pow2 (binade \<bar>x\<bar> - 52)"
proof -
  have "pow2 (binade \<bar>x\<bar>) = pow2 (binade \<bar>x\<bar> - 52) * pow2 52"
    using pow2_add [of "binade \<bar>x\<bar> - 52" 52] by simp
  also have "pow2 52 = 2 ^ 52" using pow2_nat [of 52] by simp
  finally have "pow2 (binade \<bar>x\<bar> - 52) * 2 ^ 52 \<le> \<bar>x\<bar>"
    using binade_le [of "\<bar>x\<bar>"] assms by simp
  then show ?thesis using pow2_pos [of "binade \<bar>x\<bar> - 52"] by (simp add: field_simps)
qed

lemma round_double_pos:
  assumes "0 < x"
  shows "0 < round_double x"
proof -
  let ?u = "pow2 (binade \<bar>x\<bar> - 52)"
  have "2 ^ 52 \<le> x / ?u" using scaled_ge [of x] assms by simp
  then have "(1::real) \<le> x / ?u" by simp
  then have "1 \<le> \<lfloor>x / ?u\<rfloor>" by (simp only: le_floor_iff of_int_1)
  then have "0 < round_even (x / ?u)" using round_even_bounds [of "x / ?u"] by linarith
  then have "0 < real_of_int (round_even (x / ?u)) * ?u"
    using pow2_pos [of "binade \<bar>x\<bar> - 52"] by simp
  then show ?thesis using assms by (simp add: round_double_def Let_def)
qed

lemma round_double_neg:
  assumes "x < 0"
  shows "round_double x < 0"
proof -
  let ?u = "pow2 (binade \<bar>x\<bar> - 52)"
  have "2 ^ 52 \<le> (- x) / ?u" using scaled_ge [of x] assms by simp
  then have "x / ?u \<le> - 1" by simp
  then have "x / ?u \<le> real_of_int (- 1)" by simp
  then have "round_even (x / ?u) \<le> - 1" by (rule round_even_le_int)
  then have "real_of_int (round_even (x / ?u)) < 0" by simp
  then have "real_of_int (round_even (x / ?u)) * ?u < 0"
    using pow2_pos [of "binade \<bar>x\<bar> - 52"] by (simp add: mult_less_0_iff)
  then show ?thesis using assms by (simp add: round_double_def Let_def)
qed

lemma round_double_zero: "round_double 0 = 0"
  by (simp add: round_double_def)

lemma round_double_le_zero_iff: "round_double x \<le> 0 \<longleftrightarrow> x \<le> 0"
  using round_double_pos [of x] round_double_neg [of x] round_double_zero
  by (cases "x < 0"; cases "x = 0") (auto simp: not_less)

lemma pow2_less_cancel: "pow2 j < pow2 k \<Longrightarrow> j < k"
  by (simp add: pow2_powr)

lemma round_double_le_nat:
  assumes "x \<le> real n" and "n < 2 ^ 53"
  shows "round_double x \<le> real n"
proof (cases "x \<le> 0")
  case True
  then have "round_double x \<le> 0" by (simp only: round_double_le_zero_iff)
  then show ?thesis by simp
next
  case False
  then have pos: "0 < x" by simp
  let ?e = "binade \<bar>x\<bar>"
  let ?u = "pow2 (?e - 52)"
  have "pow2 ?e \<le> x" using binade_le [of "\<bar>x\<bar>"] pos by simp
  also have "x \<le> real n" by (rule assms(1))
  also have "real n < 2 ^ 53" using assms(2) by (simp only: of_nat_less_numeral_power_cancel_iff)
  also have "(2::real) ^ 53 = pow2 53" using pow2_nat [of 53] by simp
  finally have "?e < 53" by (rule pow2_less_cancel)
  then have k: "0 \<le> 52 - ?e" by simp
  have u: "pow2 (52 - ?e) * ?u = 1"
    using pow2_add [of "52 - ?e" "?e - 52"] by (simp add: pow2_def)
  then have inv: "1 / ?u = pow2 (52 - ?e)"
    using pow2_pos [of "?e - 52"] by (simp add: field_simps)
  have p: "pow2 (52 - ?e) = real_of_int (2 ^ nat (52 - ?e))"
    using k by (simp add: pow2_def)
  have "x / ?u \<le> real n / ?u"
    using assms(1) pow2_pos [of "?e - 52"] by (simp add: divide_right_mono)
  also have "real n / ?u = real n * (1 / ?u)" by simp
  also have "\<dots> = real_of_int (int n * 2 ^ nat (52 - ?e))"
    unfolding inv p by simp
  finally have "round_even (x / ?u) \<le> int n * 2 ^ nat (52 - ?e)"
    by (rule round_even_le_int)
  then have "real_of_int (round_even (x / ?u)) \<le> real_of_int (int n * 2 ^ nat (52 - ?e))"
    by (simp only: of_int_le_iff)
  then have "real_of_int (round_even (x / ?u)) * ?u \<le> real_of_int (int n * 2 ^ nat (52 - ?e)) * ?u"
    using pow2_pos [of "?e - 52"] by (simp only: mult_le_cancel_right_pos)
  also have "real_of_int (int n * 2 ^ nat (52 - ?e)) * ?u = real n * (pow2 (52 - ?e) * ?u)"
    unfolding p by simp
  also have "\<dots> = real n" unfolding u by simp
  finally show ?thesis using pos by (simp add: round_double_def Let_def)
qed

section \<open>The greedy pass keeps its invariant\<close>

lemma neighbors_sym: "v \<in> neighbors es u \<longleftrightarrow> u \<in> neighbors es v"
  by (auto simp: neighbors_def)

lemma mark_neighbors_eq: "mark_neighbors es i cs = cs \<union> neighbors es i"
proof -
  have "fold (\<lambda>(u, v) cs.
            let cs1 = (if u = i then insert v cs else cs)
            in (if v = i then insert u cs1 else cs1)) es cs = cs \<union> neighbors es i" for cs
  proof (induction es arbitrary: cs)
    case Nil
    show ?case by (simp add: neighbors_def)
  next
    case (Cons e es)
    obtain u v where e: "e = (u, v)" by (cases e)
    have "neighbors (e # es) i = (if u = i then {v} else {}) \<union> (if v = i then {u} else {}) \<union> neighbors es i"
      unfolding e neighbors_def by auto
    then show ?case using Cons.IH unfolding e by (auto simp: Let_def)
  qed
  then show ?thesis by (simp add: mark_neighbors_def)
qed

lemma greedy_inv_init: "greedy_inv es {} ([], {})"
  by (simp add: greedy_inv_def)

lemma greedy_inv_step:
  assumes "greedy_inv es seen st"
  shows "greedy_inv es (insert (score_id a) seen) (select_step es a st)"
proof -
  obtain sel cs where st: "st = (sel, cs)" by (cases st)
  from assms have inv: "cs = (\<Union>s\<in>set sel. neighbors es s) \<and>
      set sel \<subseteq> seen \<and> seen \<subseteq> set sel \<union> cs \<and>
      (\<forall>u\<in>set sel. \<forall>v\<in>set sel. u \<noteq> v \<longrightarrow> v \<notin> neighbors es u) \<and> distinct sel"
    unfolding greedy_inv_def st fst_conv snd_conv .
  from inv have cs: "cs = (\<Union>s\<in>set sel. neighbors es s)" by blast
  from inv have sub: "set sel \<subseteq> seen" by blast
  from inv have cov: "seen \<subseteq> set sel \<union> cs" by blast
  from inv have ind: "\<forall>u\<in>set sel. \<forall>v\<in>set sel. u \<noteq> v \<longrightarrow> v \<notin> neighbors es u" by blast
  from inv have dist: "distinct sel" by blast
  let ?i = "score_id a"
  show ?thesis
  proof (cases "?i \<in> cs")
    case True
    then have step: "select_step es a st = (sel, cs)" by (simp add: select_step_def st)
    show ?thesis
      unfolding greedy_inv_def step fst_conv snd_conv
    proof (intro conjI)
      show "cs = (\<Union>s\<in>set sel. neighbors es s)" by (rule cs)
      show "set sel \<subseteq> insert ?i seen" using sub by blast
      show "insert ?i seen \<subseteq> set sel \<union> cs" using cov True by blast
      show "\<forall>u\<in>set sel. \<forall>v\<in>set sel. u \<noteq> v \<longrightarrow> v \<notin> neighbors es u" by (rule ind)
      show "distinct sel" by (rule dist)
    qed
  next
    case False
    have step: "select_step es a st = (set_add sel ?i, cs \<union> neighbors es ?i)"
      using False by (simp add: select_step_def st mark_neighbors_eq)
    have set_sel: "set (set_add sel ?i) = insert ?i (set sel)"
      by (simp add: set_add_def insert_absorb)
    have nb: "\<forall>s\<in>set sel. ?i \<notin> neighbors es s"
      using False cs by blast
    then have nb': "\<forall>s\<in>set sel. s \<notin> neighbors es ?i"
      using neighbors_sym by blast
    show ?thesis
      unfolding greedy_inv_def step fst_conv snd_conv set_sel
    proof (intro conjI)
      show "cs \<union> neighbors es ?i = (\<Union>s\<in>insert ?i (set sel). neighbors es s)"
        unfolding cs by blast
      show "insert ?i (set sel) \<subseteq> insert ?i seen" using sub by blast
      show "insert ?i seen \<subseteq> insert ?i (set sel) \<union> (cs \<union> neighbors es ?i)"
        using cov by blast
      show "\<forall>u\<in>insert ?i (set sel). \<forall>v\<in>insert ?i (set sel). u \<noteq> v \<longrightarrow> v \<notin> neighbors es u"
        using ind nb nb' by blast
      show "distinct (set_add sel ?i)"
        using dist by (simp add: set_add_def)
    qed
  qed
qed

lemma greedy_inv_fold:
  "greedy_inv es seen st \<Longrightarrow>
   greedy_inv es (seen \<union> score_id ` set xs) (fold (select_step es) xs st)"
proof (induction xs arbitrary: seen st)
  case Nil
  then show ?case by simp
next
  case (Cons a xs)
  from greedy_inv_step [OF Cons.prems]
  have "greedy_inv es (insert (score_id a) seen) (select_step es a st)" .
  from Cons.IH [OF this] show ?case by simp
qed

lemma greedy_inv_greedy: "greedy_inv es (score_id ` set xs) (greedy es xs)"
  using greedy_inv_fold [OF greedy_inv_init, of es xs] by (simp add: greedy_def)

lemma set_insert_by: "set (insert_by cmp a bs) = insert a (set bs)"
  by (induction bs) auto

lemma set_sort_by: "set (sort_by cmp as) = set as"
  by (induction as) (simp_all add: sort_by_def set_insert_by)

lemma ids_nodeScores: "map score_id (nodeScores g) = [0..<length (nodes g)]"
  by (rule nth_equalityI) (simp_all add: nodeScores_def)

lemma processed_ids: "score_id ` set (sort_by compare_scores (nodeScores g)) = {0..<length (nodes g)}"
proof -
  have "score_id ` set (nodeScores g) = set (map score_id (nodeScores g))" by simp
  then show ?thesis by (simp only: set_sort_by ids_nodeScores set_upt)
qed

lemma findMWISSolution_inv:
  "greedy_inv (edges g) {0..<length (nodes g)}
     (greedy (edges g) (sort_by compare_scores (nodeScores g)))"
  using greedy_inv_greedy [of "edges g" "sort_by compare_scores (nodeScores g)"]
  by (simp only: processed_ids)

section \<open>Degrees, scores and the visiting order\<close>

subsection \<open>The degree array\<close>

lemma length_incr: "length ds \<le> length (incr ds u)"
  by (simp add: incr_def)

lemma nth_incr:
  "i < length ds \<Longrightarrow> incr ds u ! i = (if u = i then map_option Suc (ds ! i) else ds ! i)"
  by (simp add: incr_def nth_append)

lemma fold_incr_nth:
  "i < length ds \<Longrightarrow>
   i < length (fold (\<lambda>(u, v) ds. incr (incr ds u) v) es ds) \<and>
   fold (\<lambda>(u, v) ds. incr (incr ds u) v) es ds ! i = map_option (\<lambda>d. d + incidences es i) (ds ! i)"
proof (induction es arbitrary: ds)
  case Nil
  then show ?case by (simp add: incidences_def option.map_ident)
next
  case (Cons e es)
  obtain u v where e: "e = (u, v)" by (cases e)
  let ?ds = "incr (incr ds u) v"
  have l1: "i < length (incr ds u)" using Cons.prems length_incr [of ds u] by simp
  then have l2: "i < length ?ds" using length_incr [of "incr ds u" v] by simp
  have v: "?ds ! i = map_option (\<lambda>d. d + incidences [e] i) (ds ! i)"
    using Cons.prems l1 by (cases "ds ! i") (auto simp: nth_incr e incidences_def)
  have inc: "incidences (e # es) i = incidences [e] i + incidences es i"
    by (simp add: incidences_def)
  have "map_option (\<lambda>d. d + incidences es i) (?ds ! i) =
        map_option (\<lambda>d. d + incidences (e # es) i) (ds ! i)"
    unfolding v inc by (cases "ds ! i") simp_all
  with Cons.IH [OF l2] show ?case
    by (simp add: e)
qed

lemma degrees_nth:
  assumes "i < length (nodes g)"
  shows "read_degree (degrees g) i = Some (incidences (edges g) i)"
  using fold_incr_nth [of i "replicate (length (nodes g)) (Some 0)" "edges g"] assms
  by (simp add: degrees_def read_degree_def)

lemma nodeScores_nth:
  assumes "i < length (nodes g)"
  shows "nodeScores g ! i =
    \<lparr>score_id = i,
     score = Some (round_double (weight (nodes g ! i) / (real (incidences (edges g) i) + 1)))\<rparr>"
  using assms by (simp add: nodeScores_def degrees_nth)

lemma nodeScores_some: "a \<in> set (nodeScores g) \<Longrightarrow> score a \<noteq> None"
proof -
  assume "a \<in> set (nodeScores g)"
  then obtain i where i: "i < length (nodeScores g)" and a: "a = nodeScores g ! i"
    by (auto simp: in_set_conv_nth)
  from i have "i < length (nodes g)" by (simp add: nodeScores_def)
  from nodeScores_nth [OF this] show ?thesis unfolding a by simp
qed

lemma nodeScores_cong:
  assumes "map weight (nodes g) = map weight (nodes g')" and "edges g = edges g'"
  shows "nodeScores g = nodeScores g'"
proof (rule nth_equalityI)
  from assms(1) have len: "length (nodes g) = length (nodes g')"
    by (rule map_eq_imp_length_eq)
  then show "length (nodeScores g) = length (nodeScores g')" by (simp add: nodeScores_def)
  fix i assume "i < length (nodeScores g)"
  then have i: "i < length (nodes g)" by (simp add: nodeScores_def)
  then have "weight (nodes g ! i) = weight (nodes g' ! i)"
    using assms(1) len by (metis nth_map)
  with i len assms(2) show "nodeScores g ! i = nodeScores g' ! i"
    by (simp add: nodeScores_nth)
qed

subsection \<open>The stable sort\<close>

lemma precedes_insert_by:
  assumes "sorted_wrt precedes bs"
    and "\<forall>b\<in>set bs. score_id a < score_id b"
    and "score a \<noteq> None" and "\<forall>b\<in>set bs. score b \<noteq> None"
  shows "sorted_wrt precedes (insert_by compare_scores a bs)"
  using assms
proof (induction bs)
  case Nil
  then show ?case by simp
next
  case (Cons b bs)
  from Cons.prems obtain sa sb where sa: "score a = Some sa" and sb: "score b = Some sb"
    by auto
  have idb: "score_id a < score_id b" using Cons.prems by simp
  show ?case
  proof (cases "compare_scores a b \<le> 0")
    case True
    then have le: "sb \<le> sa" by (simp add: compare_scores_def sa sb round_double_le_zero_iff)
    have ab: "precedes a b" using le idb by (auto simp: precedes_def sa sb)
    have "precedes a x" if "x \<in> set bs" for x
    proof -
      from that Cons.prems obtain sx where sx: "score x = Some sx" by auto
      have "precedes b x" using Cons.prems(1) that by simp
      then have "sx \<le> sb" by (auto simp: precedes_def sb sx)
      moreover have "score_id a < score_id x" using Cons.prems(2) that by simp
      ultimately show ?thesis using le by (auto simp: precedes_def sa sx)
    qed
    with ab Cons.prems(1) True show ?thesis by simp
  next
    case False
    then have lt: "sa < sb"
      by (simp add: compare_scores_def sa sb round_double_le_zero_iff not_le)
    have ba: "precedes b a" using lt by (simp add: precedes_def sa sb)
    have ih: "sorted_wrt precedes (insert_by compare_scores a bs)"
      using Cons.IH Cons.prems by simp
    show ?thesis using False ba ih Cons.prems(1) by (simp add: set_insert_by)
  qed
qed

lemma precedes_sort_by:
  assumes "sorted_wrt (<) (map score_id as)" and "\<forall>a\<in>set as. score a \<noteq> None"
  shows "sorted_wrt precedes (sort_by compare_scores as)"
  using assms
proof (induction as)
  case Nil
  then show ?case by (simp add: sort_by_def)
next
  case (Cons a as)
  have s: "sort_by compare_scores (a # as) = insert_by compare_scores a (sort_by compare_scores as)"
    by (simp add: sort_by_def)
  have ih: "sorted_wrt precedes (sort_by compare_scores as)" using Cons by simp
  show ?case unfolding s
    using ih Cons.prems by (intro precedes_insert_by) (simp_all add: set_sort_by)
qed

lemma precedes_order: "sorted_wrt precedes (sort_by compare_scores (nodeScores g))"
proof (rule precedes_sort_by)
  show "sorted_wrt (<) (map score_id (nodeScores g))"
    by (simp only: ids_nodeScores sorted_wrt_upt)
  show "\<forall>a\<in>set (nodeScores g). score a \<noteq> None"
    using nodeScores_some by blast
qed

lemma precedes_asym: "precedes a b \<Longrightarrow> \<not> precedes b a"
  by (auto simp: precedes_def split: option.splits)

lemma precedes_unique:
  "sorted_wrt precedes xs \<Longrightarrow> sorted_wrt precedes ys \<Longrightarrow> set xs = set ys \<Longrightarrow> xs = ys"
proof (induction xs arbitrary: ys)
  case Nil
  then show ?case by simp
next
  case (Cons x xs)
  from Cons.prems(3) have "ys \<noteq> []" by auto
  then obtain y ys' where ys: "ys = y # ys'" by (cases ys) auto
  have px: "\<forall>z\<in>set xs. precedes x z" using Cons.prems(1) by simp
  have py: "\<forall>z\<in>set ys'. precedes y z" using Cons.prems(2) by (simp add: ys)
  have xy: "x = y"
  proof (rule ccontr)
    assume ne: "x \<noteq> y"
    have "x \<in> set (y # ys')" using Cons.prems(3) unfolding ys by auto
    with ne have "precedes y x" using py by auto
    moreover have "y \<in> set (x # xs)" using Cons.prems(3) unfolding ys by auto
    with ne have "precedes x y" using px by auto
    ultimately show False using precedes_asym by blast
  qed
  have nx: "x \<notin> set xs" using px precedes_asym by blast
  have ny: "y \<notin> set ys'" using py precedes_asym by blast
  have "set xs = set ys'"
    using Cons.prems(3) nx ny unfolding ys xy by auto
  moreover have "sorted_wrt precedes ys'" using Cons.prems(2) by (simp add: ys)
  moreover have "sorted_wrt precedes xs" using Cons.prems(1) by simp
  ultimately have "xs = ys'" by (intro Cons.IH)
  with xy ys show ?case by simp
qed

section \<open>The generated nodes and edges\<close>

lemma generate_nodes_Suc:
  "generate_nodes rnd cw ch (Suc n) = push_node rnd cw ch n (generate_nodes rnd cw ch n)"
  by (simp add: generate_nodes_def)

lemma generate_nodes_shape:
  "snd (generate_nodes rnd cw ch n) = 3 * n \<and>
   map weight (fst (generate_nodes rnd cw ch n)) =
     map (\<lambda>i. round_double (round_double (rnd (3 * i + 2) * 2) + 1 / 2)) [0..<n]"
proof (induction n)
  case 0
  show ?case by (simp add: generate_nodes_def)
next
  case (Suc n)
  obtain ns c where g: "generate_nodes rnd cw ch n = (ns, c)" by (cases "generate_nodes rnd cw ch n")
  with Suc show ?case
    by (simp add: generate_nodes_Suc push_node_def)
qed

lemma nodes_createGraph:
  "nodes (createGraph rnd cw ch n p type) = fst (generate_nodes rnd cw ch n)"
  by (simp add: createGraph_def split: prod.split)

lemma edges_createGraph:
  "edges (createGraph rnd cw ch n p type) =
     (if type = ''regular'' then regular_edges n
      else if type = ''scale-free'' then scale_free_edges rnd n (snd (generate_nodes rnd cw ch n))
      else random_edges rnd p n (snd (generate_nodes rnd cw ch n)))"
  by (simp add: createGraph_def split: prod.split)

lemma length_nodes_createGraph: "length (nodes (createGraph rnd cw ch n p type)) = n"
proof -
  have "length (map weight (fst (generate_nodes rnd cw ch n))) = n"
    by (simp only: generate_nodes_shape length_map length_upt)
  then show ?thesis by (simp add: nodes_createGraph)
qed

lemma random_edges_clamp_hi:
  assumes "\<forall>c. rnd c < 1" and "1 < p"
  shows "random_edges rnd p n c = random_edges rnd 1 n c"
proof -
  have "(rnd c' < p) = (rnd c' < 1)" for c'
    using assms(1) [rule_format, of c'] assms(2) by simp
  then show ?thesis by (simp add: random_edges_def)
qed

lemma random_edges_clamp_lo:
  assumes "\<forall>c. 0 \<le> rnd c" and "p < 0"
  shows "random_edges rnd p n c = random_edges rnd 0 n c"
proof -
  have "(rnd c' < p) = (rnd c' < 0)" for c'
    using assms(1) [rule_format, of c'] assms(2) by simp
  then show ?thesis by (simp add: random_edges_def)
qed

subsection \<open>The regular branch\<close>

lemma fold_append_concat: "fold (\<lambda>x acc. acc @ f x) xs acc = acc @ concat (map f xs)"
  by (induction xs arbitrary: acc) simp_all

lemma regular_edges_concat:
  "regular_edges n =
     concat (map (\<lambda>i. [(i, (i + 1) mod n), (i, (i + 2) mod n), (i, (i + 3) mod n)]) [0..<n])"
proof -
  have inner: "fold (\<lambda>j es'. es' @ [(i, (i + j) mod n)]) [1..<3 + 1] es =
      es @ [(i, (i + 1) mod n), (i, (i + 2) mod n), (i, (i + 3) mod n)]" for i es
  proof -
    have "[1..<3 + 1] = [1, 2, 3::nat]" by (simp add: upt_rec)
    then show ?thesis by simp
  qed
  show ?thesis
    unfolding regular_edges_def inner by (simp add: fold_append_concat)
qed

lemma filter_fst_concat:
  assumes "\<And>j. \<forall>e\<in>set (f j). fst e = j"
  shows "filter (\<lambda>e. fst e = i) (concat (map f [0..<n])) = (if i < n then f i else [])"
proof (induction n)
  case 0
  show ?case by simp
next
  case (Suc n)
  have a: "filter (\<lambda>e. fst e = i) (f n) = (if i = n then f n else [])"
    using assms [of n] by (auto simp: filter_empty_conv intro: filter_True)
  show ?case using Suc a by (auto simp: less_Suc_eq)
qed

lemma regular_out_edges:
  assumes "i < n"
  shows "filter (\<lambda>e. fst e = i) (regular_edges n) =
         [(i, (i + 1) mod n), (i, (i + 2) mod n), (i, (i + 3) mod n)]"
  unfolding regular_edges_concat
  using assms by (subst filter_fst_concat) simp_all

subsection \<open>Where the generated edges are valid\<close>

text \<open>
  The random branch produces valid edges for every node count, the regular branch for
  at least four nodes, the scale-free branch for at least three (and fewer than
  \<open>2^50\<close>, so that the degree sums stay exact); the draws need only stay below \<open>1\<close>.
\<close>

lemma random_inner_subset:
  "set (fst (fold (\<lambda>j (es, c'). (if rnd c' < p then es @ [(i, j)] else es, c' + 1)) js st))
     \<subseteq> set (fst st) \<union> {i} \<times> set js"
proof (induction js arbitrary: st)
  case Nil
  show ?case by simp
next
  case (Cons j js)
  obtain es c where st: "st = (es, c)" by (cases st)
  let ?st' = "(if rnd c < p then es @ [(i, j)] else es, c + 1)"
  have "set (fst ?st') \<subseteq> set es \<union> {(i, j)}" by auto
  with Cons.IH [of ?st'] show ?case unfolding st by auto
qed

lemma random_outer_subset:
  "set (fst (fold (\<lambda>i. fold (\<lambda>j (es, c'). (if rnd c' < p then es @ [(i, j)] else es, c' + 1))
                               [i + 1..<n]) is st))
     \<subseteq> set (fst st) \<union> {(i, j). i < j \<and> j < n}"
proof (induction "is" arbitrary: st)
  case Nil
  show ?case by simp
next
  case (Cons i "is")
  let ?st' = "fold (\<lambda>j (es, c'). (if rnd c' < p then es @ [(i, j)] else es, c' + 1)) [i + 1..<n] st"
  have "set (fst ?st') \<subseteq> set (fst st) \<union> {i} \<times> set [i + 1..<n]"
    by (rule random_inner_subset)
  also have "\<dots> \<subseteq> set (fst st) \<union> {(i, j). i < j \<and> j < n}" by auto
  finally have a: "set (fst ?st') \<subseteq> set (fst st) \<union> {(i, j). i < j \<and> j < n}" .
  from Cons.IH [of ?st'] a show ?case by auto
qed

lemma random_edges_valid: "valid_edges n (random_edges rnd p n c)"
  using random_outer_subset [of rnd p n "[0..<n]" "([], c)"]
  by (auto simp: valid_edges_def random_edges_def)

lemma wrap_differs:
  assumes "i < n" and "0 < j" and "j < n"
  shows "(i + j) mod n \<noteq> (i::nat)"
proof (cases "i + j < n")
  case True
  then have "(i + j) mod n = i + j" by (rule mod_less)
  then show ?thesis using assms(2) by simp
next
  case False
  then have "(i + j) mod n = (i + j - n) mod n" by (simp add: le_mod_geq)
  also have "\<dots> = i + j - n" using assms by (intro mod_less) simp
  finally show ?thesis using assms False by simp
qed

lemma regular_edges_valid:
  assumes "4 \<le> n"
  shows "valid_edges n (regular_edges n)"
proof -
  have h1: "Suc y mod n \<noteq> y" if "y < n" for y
    using wrap_differs [of y n 1] that assms by simp
  have h2: "Suc (Suc y) mod n \<noteq> y" if "y < n" for y
    using wrap_differs [of y n 2] that assms by simp
  have h3: "(y + 3) mod n \<noteq> y" if "y < n" for y
    using wrap_differs [of y n 3] that assms by simp
  show ?thesis
    unfolding valid_edges_def regular_edges_concat
    using assms h1 h2 h3 by (auto; metis)
qed

lemma fold_sum: "fold (\<lambda>b a. a + b) ds (s::nat) = s + sum_list ds"
  by (induction ds arbitrary: s) simp_all

lemma length_count_degrees: "length (count_degrees i es) = i"
proof -
  have "length (fold (\<lambda>(u, v) ds.
            let ds1 = (if u < i then ds[u := ds ! u + 1] else ds)
            in (if v < i then ds1[v := ds1 ! v + 1] else ds1)) es ds) = length ds"
    for ds :: "nat list"
    by (induction es arbitrary: ds) (auto simp: Let_def)
  then show ?thesis by (simp add: count_degrees_def)
qed

lemma sum_count_degrees: "sum_list (count_degrees i es) \<le> 2 * length es"
proof -
  have "sum_list (fold (\<lambda>(u, v) ds.
            let ds1 = (if u < i then ds[u := ds ! u + 1] else ds)
            in (if v < i then ds1[v := ds1 ! v + 1] else ds1)) es ds) \<le> sum_list ds + 2 * length es"
    if "length ds = i" for ds :: "nat list"
    using that
  proof (induction es arbitrary: ds)
    case Nil
    show ?case by simp
  next
    case (Cons e es)
    obtain u v where e: "e = (u, v)" by (cases e)
    let ?ds1 = "if u < i then ds[u := ds ! u + 1] else ds"
    let ?ds2 = "if v < i then ?ds1[v := ?ds1 ! v + 1] else ?ds1"
    have l1: "length ?ds1 = i" using Cons.prems by simp
    have s1: "sum_list ?ds1 \<le> sum_list ds + 1"
      using Cons.prems by (simp add: sum_list_update)
    have l2: "length ?ds2 = i" using l1 by simp
    have s2: "sum_list ?ds2 \<le> sum_list ?ds1 + 1"
      using l1 by (simp add: sum_list_update)
    from Cons.IH [OF l2] s1 s2 show ?case by (simp add: e Let_def)
  qed
  from this [of "replicate i 0"] show ?thesis
    by (simp add: count_degrees_def sum_list_replicate)
qed

lemma pick_in_range:
  "selected < length ds \<Longrightarrow> sum_list ds < 2 ^ 53 \<Longrightarrow>
   r \<le> real (sum_list (drop selected ds)) \<Longrightarrow>
   pick ds r selected < length ds"
proof (induction ds r selected rule: pick.induct)
  case (1 ds r selected)
  show ?case
  proof (cases "selected < length ds \<and> r > real (ds ! selected)")
    case False
    then show ?thesis using "1.prems" by (simp add: pick.simps)
  next
    case True
    have split: "drop selected ds = ds ! selected # drop (selected + 1) ds"
      using "1.prems"(1) by (simp add: Cons_nth_drop_Suc)
    have le: "r - real (ds ! selected) \<le> real (sum_list (drop (selected + 1) ds))"
      using "1.prems"(3) unfolding split by simp
    have "0 < real (sum_list (drop (selected + 1) ds))" using le True by simp
    then have "drop (selected + 1) ds \<noteq> []" by auto
    then have lt: "selected + 1 < length ds" by simp
    have "sum_list (drop (selected + 1) ds) \<le> sum_list (take (selected + 1) ds) + sum_list (drop (selected + 1) ds)"
      by simp
    also have "\<dots> = sum_list ds"
      by (simp only: sum_list_append [symmetric] append_take_drop_id)
    finally have "sum_list (drop (selected + 1) ds) < 2 ^ 53" using "1.prems"(2) by simp
    with le have le': "round_double (r - real (ds ! selected)) \<le> real (sum_list (drop (selected + 1) ds))"
      by (rule round_double_le_nat)
    from "1.IH" [OF True lt "1.prems"(2) le'] True show ?thesis
      by (simp add: pick.simps [of ds r selected])
  qed
qed

lemma attach_fst:
  "fst (attach rnd i (es, c)) =
     es @ [(i, pick (count_degrees i es)
                 (round_double (rnd c * real (sum_list (count_degrees i es)))) 0),
           (i, pick (count_degrees i es)
                 (round_double (rnd (c + 1) * real (sum_list (count_degrees i es)))) 0)]"
proof -
  have "[0..<2] = [0, 1::nat]" by (simp add: upt_rec)
  then show ?thesis by (simp add: attach_def Let_def fold_sum)
qed

lemma attach_valid:
  assumes "\<forall>c. rnd c < 1" and "0 < i" and "valid_edges i (fst st)"
    and "2 * length (fst st) < 2 ^ 53"
  shows "valid_edges (Suc i) (fst (attach rnd i st)) \<and>
         length (fst (attach rnd i st)) = length (fst st) + 2"
proof -
  obtain es c where st: "st = (es, c)" by (cases st)
  let ?ds = "count_degrees i es"
  have small: "sum_list ?ds < 2 ^ 53"
    using sum_count_degrees [of i es] assms(4) unfolding st by simp
  have bound: "pick ?ds (round_double (rnd c' * real (sum_list ?ds))) 0 < i" for c'
  proof -
    have "rnd c' \<le> 1" using assms(1) [rule_format, of c'] by simp
    then have "rnd c' * real (sum_list ?ds) \<le> 1 * real (sum_list ?ds)"
      by (intro mult_right_mono) simp_all
    then have "rnd c' * real (sum_list ?ds) \<le> real (sum_list ?ds)" by simp
    then have "round_double (rnd c' * real (sum_list ?ds)) \<le> real (sum_list ?ds)"
      using small by (rule round_double_le_nat)
    then have "round_double (rnd c' * real (sum_list ?ds)) \<le> real (sum_list (drop 0 ?ds))"
      by simp
    moreover have "0 < length ?ds" using assms(2) by (simp add: length_count_degrees)
    ultimately have "pick ?ds (round_double (rnd c' * real (sum_list ?ds))) 0 < length ?ds"
      using small by (intro pick_in_range)
    then show ?thesis by (simp add: length_count_degrees)
  qed
  have old: "\<forall>(u, v)\<in>set es. u < Suc i \<and> v < Suc i \<and> u \<noteq> v"
    using assms(3) unfolding st valid_edges_def by auto
  have "valid_edges (Suc i) (fst (attach rnd i st))"
    unfolding st attach_fst valid_edges_def
    using old bound [of c] bound [of "c + 1"] by auto
  moreover have "length (fst (attach rnd i st)) = length (fst st) + 2"
    unfolding st attach_fst by simp
  ultimately show ?thesis by blast
qed

lemma seed_edges_eq: "seed_edges = [(0, 1), (0, 2), (1, 2)]"
  by (simp add: seed_edges_def upt_rec)

lemma scale_free_fold_valid:
  assumes "\<forall>c. rnd c < 1" and "k < 2 ^ 50"
  shows "valid_edges (3 + k) (fst (fold (attach rnd) [3..<3 + k] (seed_edges, c))) \<and>
         length (fst (fold (attach rnd) [3..<3 + k] (seed_edges, c))) = 3 + 2 * k"
  using assms(2)
proof (induction k)
  case 0
  show ?case by (simp add: seed_edges_eq valid_edges_def)
next
  case (Suc k)
  let ?st = "fold (attach rnd) [3..<3 + k] (seed_edges, c)"
  from Suc have ih: "valid_edges (3 + k) (fst ?st)" and len: "length (fst ?st) = 3 + 2 * k"
    by simp_all
  have u: "[3..<Suc (3 + k)] = [3..<3 + k] @ [3 + k]"
    by (rule upt_Suc_append) simp
  have f: "fold (attach rnd) [3..<Suc (3 + k)] (seed_edges, c) = attach rnd (3 + k) ?st"
    unfolding u by simp
  have "(2::nat) * (3 + 2 * k) < 2 * (3 + 2 * 2 ^ 50)" using Suc.prems by simp
  also have "\<dots> < 2 ^ 53" by simp
  finally have small: "2 * length (fst ?st) < 2 ^ 53" unfolding len .
  have "valid_edges (Suc (3 + k)) (fst (attach rnd (3 + k) ?st)) \<and>
        length (fst (attach rnd (3 + k) ?st)) = length (fst ?st) + 2"
    by (rule attach_valid [OF assms(1) _ ih small]) simp
  then show ?case unfolding add_Suc_right f len by simp
qed

lemma scale_free_edges_valid:
  assumes "\<forall>c. rnd c < 1" and "3 \<le> n" and "n < 2 ^ 50"
  shows "valid_edges n (scale_free_edges rnd n c)"
proof -
  from assms(2) obtain k where n: "n = 3 + k" using le_Suc_ex by blast
  with assms(3) have "k < 2 ^ 50" by simp
  from scale_free_fold_valid [OF assms(1) this, of c]
  show ?thesis unfolding n scale_free_edges_def by blast
qed

lemma generated_edges_valid:
  assumes "\<forall>c. rnd c < 1"
    and "type = ''regular'' \<longrightarrow> 4 \<le> n"
    and "type = ''scale-free'' \<longrightarrow> 3 \<le> n \<and> n < 2 ^ 50"
  shows "valid_edges (length (nodes (createGraph rnd cw ch n p type)))
           (edges (createGraph rnd cw ch n p type))"
  using assms
  by (simp add: length_nodes_createGraph edges_createGraph regular_edges_valid
      scale_free_edges_valid random_edges_valid)

section \<open>The concrete scenario\<close>

lemma nodeScores_path4:
  "nodeScores path4 =
     [\<lparr>score_id = 0, score = Some (1 / 2)\<rparr>,
      \<lparr>score_id = 1, score = Some (7505999378950827 / 4503599627370496)\<rparr>,
      \<lparr>score_id = 2, score = Some (6004799503160661 / 18014398509481984)\<rparr>,
      \<lparr>score_id = 3, score = Some (1 / 2)\<rparr>]"
  by (simp add: nodeScores_def degrees_def incr_def read_degree_def path4_def path_node_def
      upt_rec double_eval)

lemma sorted_path4:
  "sort_by compare_scores (nodeScores path4) =
     [\<lparr>score_id = 1, score = Some (7505999378950827 / 4503599627370496)\<rparr>,
      \<lparr>score_id = 0, score = Some (1 / 2)\<rparr>,
      \<lparr>score_id = 3, score = Some (1 / 2)\<rparr>,
      \<lparr>score_id = 2, score = Some (6004799503160661 / 18014398509481984)\<rparr>]"
  by (simp add: nodeScores_path4 sort_by_def compare_scores_def round_double_le_zero_iff)

lemma order_path4:
  "map score_id (sort_by compare_scores (nodeScores path4)) = [1, 0, 3, 2]"
  by (simp add: sorted_path4)

lemma edges_path4: "edges path4 = [(0, 1), (1, 2), (2, 3)]"
  by (simp add: path4_def)

lemma findMWISSolution_path4: "findMWISSolution algorithm path4 = [1, 3]"
  unfolding findMWISSolution_def sorted_path4 edges_path4
  by (simp add: greedy_def select_step_def set_add_def mark_neighbors_def)

lemma edges_in_range_path4:
  "\<forall>(u, v)\<in>set (edges path4). u < length (nodes path4) \<and> v < length (nodes path4)"
  by (simp add: path4_def)

text \<open>
  Claim C2. On the path graph with edges \<open>(0,1), (1,2), (2,3)\<close> and weights
  \<open>1, 5, 1, 1\<close> the heuristic returns the selection \<open>1, 3\<close> (node 1 first), and
  \<^verbatim>\<open>calculateTotalWeight\<close> of that selection is \<open>6\<close>. The scores are the
  doubles nearest to \<open>1/2, 5/3, 1/3, 1/2\<close>, so the visiting order is \<open>1, 0, 3, 2\<close>.
\<close>

theorem path4_selection:
  "findMWISSolution algorithm path4 = [1, 3] \<and>
   map score_id (sort_by compare_scores (nodeScores path4)) = [1, 0, 3, 2] \<and>
   calculateTotalWeight path4 (findMWISSolution algorithm path4) = Inr 6"
proof -
  have total: "calculateTotalWeight path4 [1, 3] = Inr 6"
    by (simp add: calculateTotalWeight_def path4_def path_node_def double_eval)
  show ?thesis by (simp only: findMWISSolution_path4 order_path4 total simp_thms)
qed

section \<open>Properties of the heuristic\<close>

text \<open>
  Claim C1. For every graph, no two different members of the returned selection are
  joined by an edge of the graph. The graph is arbitrary: edges may repeat, may
  name indices outside the node array, and may be loops \<^verbatim>\<open>[i, i]\<close> (a loop joins
  no two nodes).
\<close>

theorem selection_independent:
  "\<forall>(u, v)\<in>set (edges g). u \<noteq> v \<longrightarrow>
     \<not> (u \<in> set (findMWISSolution algorithm g) \<and> v \<in> set (findMWISSolution algorithm g))"
proof -
  let ?st = "greedy (edges g) (sort_by compare_scores (nodeScores g))"
  have ind: "\<forall>u\<in>set (fst ?st). \<forall>v\<in>set (fst ?st). u \<noteq> v \<longrightarrow> v \<notin> neighbors (edges g) u"
    using findMWISSolution_inv [of g] by (simp add: greedy_inv_def)
  show ?thesis
  proof (clarify)
    fix u v
    assume e: "(u, v) \<in> set (edges g)" and ne: "u \<noteq> v"
      and su: "u \<in> set (findMWISSolution algorithm g)"
      and sv: "v \<in> set (findMWISSolution algorithm g)"
    have "v \<in> neighbors (edges g) u" using e by (simp add: neighbors_def)
    with ind ne su sv show False by (simp add: findMWISSolution_def)
  qed
qed

theorem selection_independent_witness:
  "(1, 2) \<in> set (edges path4) \<and> (1::nat) \<noteq> 2 \<and>
   \<not> (1 \<in> set (findMWISSolution ''classical'' path4) \<and>
      2 \<in> set (findMWISSolution ''classical'' path4))"
proof -
  have e: "(1, 2) \<in> set (edges path4)" by (simp add: path4_def)
  have "case (1::nat, 2::nat) of (u, v) \<Rightarrow> u \<noteq> v \<longrightarrow>
     \<not> (u \<in> set (findMWISSolution ''classical'' path4) \<and>
        v \<in> set (findMWISSolution ''classical'' path4))"
    by (rule bspec [OF selection_independent [of path4 "''classical''"] e])
  with e show ?thesis by simp
qed

text \<open>
  Claim C6. The selection depends on nothing but the weights and the edges: two graphs
  with the same weights and the same edges get the same selection, whatever their
  node positions and whatever \<^verbatim>\<open>algorithm\<close> is passed. The scores of the nodes have
  exactly one arrangement by descending score with equal scores by ascending index,
  and the selection is the greedy pass over that arrangement: of two nodes with the
  same score, the one with the lower index is visited first.
\<close>

theorem selection_deterministic:
  "(map weight (nodes g) = map weight (nodes g') \<and> edges g = edges g' \<longrightarrow>
      findMWISSolution algorithm g = findMWISSolution algorithm' g') \<and>
   (\<exists>xs. set xs = set (nodeScores g) \<and> sorted_wrt precedes xs \<and>
         findMWISSolution algorithm g = fst (greedy (edges g) xs) \<and>
         (\<forall>ys. set ys = set (nodeScores g) \<and> sorted_wrt precedes ys \<longrightarrow> ys = xs))"
proof (intro conjI impI)
  assume "map weight (nodes g) = map weight (nodes g') \<and> edges g = edges g'"
  then have "nodeScores g = nodeScores g'" and "edges g = edges g'"
    using nodeScores_cong [of g g'] by simp_all
  then show "findMWISSolution algorithm g = findMWISSolution algorithm' g'"
    by (simp add: findMWISSolution_def)
next
  let ?xs = "sort_by compare_scores (nodeScores g)"
  have s: "set ?xs = set (nodeScores g)" by (rule set_sort_by)
  have o: "sorted_wrt precedes ?xs" by (rule precedes_order)
  have f: "findMWISSolution algorithm g = fst (greedy (edges g) ?xs)"
    by (simp add: findMWISSolution_def)
  have u: "\<forall>ys. set ys = set (nodeScores g) \<and> sorted_wrt precedes ys \<longrightarrow> ys = ?xs"
    using precedes_unique [OF _ o] s by simp
  from s o f u show "\<exists>xs. set xs = set (nodeScores g) \<and> sorted_wrt precedes xs \<and>
         findMWISSolution algorithm g = fst (greedy (edges g) xs) \<and>
         (\<forall>ys. set ys = set (nodeScores g) \<and> sorted_wrt precedes ys \<longrightarrow> ys = xs)"
    by blast
qed

theorem selection_deterministic_witness:
  "map weight (nodes path4) = map weight (nodes path4_moved) \<and>
   edges path4 = edges path4_moved \<and>
   findMWISSolution ''qaoa'' path4 = findMWISSolution ''classical'' path4_moved \<and>
   set tied3_order = set (nodeScores tied3) \<and> sorted_wrt precedes tied3_order \<and>
   map score_id tied3_order = [0, 1, 2] \<and>
   findMWISSolution ''classical'' tied3 = fst (greedy (edges tied3) tied3_order) \<and>
   findMWISSolution ''classical'' tied3 = [0, 2]"
proof -
  have w: "map weight (nodes path4) = map weight (nodes path4_moved)"
    by (simp add: path4_moved_def path4_def)
  have e: "edges path4 = edges path4_moved"
    by (simp add: path4_moved_def)
  have same: "findMWISSolution ''qaoa'' path4 = findMWISSolution ''classical'' path4_moved"
    using selection_deterministic [of path4 path4_moved "''qaoa''" "''classical''"] w e
    by blast
  have "nodeScores tied3 = tied3_order"
    by (simp add: tied3_order_def nodeScores_def degrees_def incr_def read_degree_def
        tied3_def path_node_def upt_rec double_eval)
  then have s: "set tied3_order = set (nodeScores tied3)" by simp
  have o: "sorted_wrt precedes tied3_order"
    by (simp add: tied3_order_def precedes_def)
  have i: "map score_id tied3_order = [0, 1, 2]"
    by (simp add: tied3_order_def)
  from selection_deterministic [of tied3 tied3 "''classical''" "''classical''"]
  obtain xs where f: "findMWISSolution ''classical'' tied3 = fst (greedy (edges tied3) xs)"
    and u: "\<forall>ys. set ys = set (nodeScores tied3) \<and> sorted_wrt precedes ys \<longrightarrow> ys = xs"
    by blast
  from u s o have "tied3_order = xs" by blast
  with f have g: "findMWISSolution ''classical'' tied3 = fst (greedy (edges tied3) tied3_order)"
    by simp
  have r: "fst (greedy (edges tied3) tied3_order) = [0, 2]"
    by (simp add: tied3_order_def tied3_def greedy_def select_step_def set_add_def
        mark_neighbors_def)
  from w e same s o i g r show ?thesis by simp
qed

text \<open>
  Claim C7. On a graph with no edges the selection contains every node index; on a
  graph with no nodes the selection is empty.
\<close>

theorem selection_no_edges:
  "(edges g = [] \<longrightarrow> set (findMWISSolution algorithm g) = {0..<length (nodes g)}) \<and>
   (nodes g = [] \<longrightarrow> findMWISSolution algorithm g = [])"
proof -
  let ?st = "greedy (edges g) (sort_by compare_scores (nodeScores g))"
  have inv: "greedy_inv (edges g) {0..<length (nodes g)} ?st" by (rule findMWISSolution_inv)
  have a: "set (fst ?st) = {0..<length (nodes g)}" if "edges g = []"
  proof -
    have "snd ?st = {}" using inv that by (simp add: greedy_inv_def neighbors_def)
    with inv show ?thesis by (auto simp: greedy_inv_def)
  qed
  have b: "fst ?st = []" if "nodes g = []"
    using inv that by (simp add: greedy_inv_def)
  from a b show ?thesis by (simp add: findMWISSolution_def)
qed

theorem selection_no_edges_witness:
  "edges isolated2 = [] \<and> set (findMWISSolution ''classical'' isolated2) = {0..<2}"
proof -
  have e: "edges isolated2 = []" by (simp add: isolated2_def)
  have n: "length (nodes isolated2) = 2" by (simp add: isolated2_def)
  from selection_no_edges [of isolated2 "''classical''"] e
  have "set (findMWISSolution ''classical'' isolated2) = {0..<length (nodes isolated2)}"
    by blast
  with e n show ?thesis by simp
qed

text \<open>
  Claim C10. The selection is a maximal independent set: in a graph whose edges all
  name node indices in range, every node that is not selected is joined by an edge to
  a selected node.
\<close>

theorem selection_maximal:
  assumes "\<forall>(u, v)\<in>set (edges g). u < length (nodes g) \<and> v < length (nodes g)"
    and "i < length (nodes g)" and "i \<notin> set (findMWISSolution algorithm g)"
  shows "\<exists>s\<in>set (findMWISSolution algorithm g). (s, i) \<in> set (edges g) \<or> (i, s) \<in> set (edges g)"
proof -
  let ?st = "greedy (edges g) (sort_by compare_scores (nodeScores g))"
  have inv: "greedy_inv (edges g) {0..<length (nodes g)} ?st" by (rule findMWISSolution_inv)
  have "i \<in> set (fst ?st) \<union> snd ?st" using inv assms(2) by (auto simp: greedy_inv_def)
  with assms(3) have "i \<in> snd ?st" by (simp add: findMWISSolution_def)
  also have "snd ?st = (\<Union>s\<in>set (fst ?st). neighbors (edges g) s)"
    using inv by (simp add: greedy_inv_def)
  finally obtain s where "s \<in> set (fst ?st)" "i \<in> neighbors (edges g) s" by blast
  then show ?thesis by (auto simp: findMWISSolution_def neighbors_def)
qed

theorem selection_maximal_witness:
  "0 < length (nodes path4) \<and> 0 \<notin> set (findMWISSolution ''classical'' path4) \<and>
   (\<exists>s\<in>set (findMWISSolution ''classical'' path4).
      (s, 0) \<in> set (edges path4) \<or> (0, s) \<in> set (edges path4))"
proof -
  have h2: "0 < length (nodes path4)" by (simp add: path4_def)
  have h3: "0 \<notin> set (findMWISSolution ''classical'' path4)"
    by (simp add: findMWISSolution_path4)
  from selection_maximal [OF edges_in_range_path4 h2 h3] h2 h3
  show ?thesis by blast
qed

text \<open>
  Claim C9. Calling the method leaves the solver object, and so its graph (nodes with
  identifiers, weights and positions, and edges), as it was, and the result depends
  on the graph alone: not on the canvas, the stored solution or \<^verbatim>\<open>algorithm\<close>.
\<close>

theorem method_no_side_effect:
  "snd (findMWISSolution_method algorithm this) = this \<and>
   (this_graph this = this_graph this' \<longrightarrow>
      fst (findMWISSolution_method algorithm this) = fst (findMWISSolution_method algorithm' this'))"
  by (simp add: findMWISSolution_method_def findMWISSolution_def split: option.split)

theorem method_no_side_effect_witness:
  "this_graph (solver_with 800 None path4) = this_graph (solver_with 640 (Some [0]) path4) \<and>
   snd (findMWISSolution_method ''qaoa'' (solver_with 800 None path4)) = solver_with 800 None path4 \<and>
   fst (findMWISSolution_method ''qaoa'' (solver_with 800 None path4)) =
   fst (findMWISSolution_method ''hybrid'' (solver_with 640 (Some [0]) path4))"
proof -
  have g: "this_graph (solver_with 800 None path4) = this_graph (solver_with 640 (Some [0]) path4)"
    by (simp add: solver_with_def)
  from method_no_side_effect
    [of "''qaoa''" "solver_with 800 None path4" "solver_with 640 (Some [0]) path4" "''hybrid''"] g
  show ?thesis by blast
qed

section \<open>Properties of graph generation\<close>

text \<open>
  Claim C4 (every weight lies in \<open>[0.5, 2.0)\<close>) at two draws. The weight is
  \<^verbatim>\<open>Math.random() * 2 + 0.5\<close>: when the weight draw is \<open>0.875\<close> the node gets
  weight \<open>2.25\<close>, and at the largest draw below \<open>1\<close>, \<open>1 - 2^-53\<close>, the sum
  \<open>2.5 - 2^-52\<close> lies halfway between two doubles and is rounded to \<open>2.5\<close>.
\<close>

theorem weight_above_two:
  "length (nodes (createGraph (const_source (7 / 8)) 800 400 1 (3 / 10) ''random'')) = 1 \<and>
   weight (nodes (createGraph (const_source (7 / 8)) 800 400 1 (3 / 10) ''random'') ! 0) = 9 / 4 \<and>
   weight (nodes (createGraph (const_source (1 - 1 / 2 ^ 53)) 800 400 1 (3 / 10) ''random'') ! 0)
     = 5 / 2"
  by (simp add: nodes_createGraph generate_nodes_def push_node_def const_source_def double_eval)

text \<open>
  Claim C5, as the code has it. Generation rejects no edge probability: for every
  \<open>p\<close>, in \<open>[0, 1]\<close> or not, it returns a graph and never \<open>InvalidArgument\<close>. With
  every draw in \<open>[0, 1)\<close>, a \<open>p\<close> above \<open>1\<close> gives the graph that \<open>p = 1\<close> gives
  and a \<open>p\<close> below \<open>0\<close> the graph that \<open>p = 0\<close> gives.
\<close>

theorem probability_not_rejected:
  assumes "\<forall>c. 0 \<le> rnd c \<and> rnd c < 1"
  shows "createGraph_result rnd cw ch n p type = Inr (createGraph rnd cw ch n p type) \<and>
         (1 < p \<longrightarrow> createGraph rnd cw ch n p type = createGraph rnd cw ch n 1 type) \<and>
         (p < 0 \<longrightarrow> createGraph rnd cw ch n p type = createGraph rnd cw ch n 0 type)"
proof -
  have hi: "random_edges rnd p n c = random_edges rnd 1 n c" if "1 < p" for c
    using random_edges_clamp_hi [of rnd p n c] assms that by simp
  have lo: "random_edges rnd p n c = random_edges rnd 0 n c" if "p < 0" for c
    using random_edges_clamp_lo [of rnd p n c] assms that by simp
  show ?thesis
    by (simp add: createGraph_result_def createGraph_def hi lo split: prod.split)
qed

theorem probability_not_rejected_witness:
  "(\<forall>c. 0 \<le> const_source (1 / 2) c \<and> const_source (1 / 2) c < 1) \<and> (1::real) < 2 \<and>
   createGraph_result (const_source (1 / 2)) 800 400 2 2 ''random'' =
     Inr (createGraph (const_source (1 / 2)) 800 400 2 2 ''random'') \<and>
   createGraph (const_source (1 / 2)) 800 400 2 2 ''random'' =
     createGraph (const_source (1 / 2)) 800 400 2 1 ''random''"
proof -
  have h: "\<forall>c. 0 \<le> const_source (1 / 2) c \<and> const_source (1 / 2) c < 1"
    by (simp add: const_source_def)
  have p: "(1::real) < 2" by simp
  from probability_not_rejected [OF h, of 800 400 2 2 "''random''"] h p show ?thesis by blast
qed

text \<open>
  The rejection of claim C5 fails: with \<open>p = 2\<close>, outside \<open>[0, 1]\<close>, generation
  returns a graph (on two nodes, with the one possible edge).
\<close>

theorem probability_rejected_counterexample:
  "(1::real) < 2 \<and>
   createGraph_result (const_source (1 / 2)) 800 400 2 2 ''random'' =
   Inr \<lparr>nodes = [\<lparr>node_id = 0, node_x = 400, node_y = 200, weight = 3 / 2, radius = 20\<rparr>,
                 \<lparr>node_id = 1, node_x = 400, node_y = 200, weight = 3 / 2, radius = 20\<rparr>],
        edges = [(0, 1)]\<rparr>"
  by (simp add: createGraph_result_def createGraph_def generate_nodes_def push_node_def
      random_edges_def const_source_def upt_rec double_eval)

text \<open>
  Claim C3 (every generated edge joins two different nodes in range) at small node
  counts. The regular branch on three nodes pushes the loops \<open>(0,0)\<close>, \<open>(1,1)\<close>
  and \<open>(2,2)\<close>, since \<open>(i + 3) mod 3 = i\<close>; the scale-free branch on two nodes
  pushes the seed edges \<open>(0,2)\<close> and \<open>(1,2)\<close>, which name a node that does not
  exist. From four nodes (regular) and three nodes (scale-free) on, and for the random
  branch always, the edges are valid: \<open>generated_edges_valid\<close>.
\<close>

theorem small_graph_edges:
  "edges (createGraph (const_source (1 / 2)) 800 400 3 (3 / 10) ''regular'') =
     [(0, 1), (0, 2), (0, 0), (1, 2), (1, 0), (1, 1), (2, 0), (2, 1), (2, 2)] \<and>
   length (nodes (createGraph (const_source (1 / 2)) 800 400 2 (3 / 10) ''scale-free'')) = 2 \<and>
   edges (createGraph (const_source (1 / 2)) 800 400 2 (3 / 10) ''scale-free'') =
     [(0, 1), (0, 2), (1, 2)]"
  by (simp add: length_nodes_createGraph edges_createGraph regular_edges_def
      scale_free_edges_def seed_edges_def upt_rec)

text \<open>
  Claim C8. In a graph generated under the regular topology with at least four nodes,
  the degree count of every node (its number of incident edge entries, as the source
  counts them) is at least \<open>k = 3\<close>.
\<close>

theorem regular_degree:
  assumes "4 \<le> n"
  shows "\<forall>i<n. \<exists>d. read_degree (degrees (createGraph rnd cw ch n p ''regular'')) i = Some d \<and> 3 \<le> d"
proof (intro allI impI)
  fix i assume i: "i < n"
  let ?g = "createGraph rnd cw ch n p ''regular''"
  have "read_degree (degrees ?g) i = Some (incidences (edges ?g) i)"
    using i by (simp add: degrees_nth length_nodes_createGraph)
  moreover have "3 \<le> incidences (edges ?g) i"
    using i by (simp add: incidences_def edges_createGraph regular_out_edges)
  ultimately show "\<exists>d. read_degree (degrees ?g) i = Some d \<and> 3 \<le> d" by blast
qed

theorem regular_degree_witness:
  "(4::nat) \<le> 4 \<and>
   (\<exists>d. read_degree (degrees (createGraph (const_source (1 / 2)) 800 400 4 (3 / 10) ''regular'')) 0
          = Some d \<and> 3 \<le> d)"
proof -
  have h: "(4::nat) \<le> 4" by simp
  have i: "(0::nat) < 4" by simp
  from regular_degree [OF h, of "const_source (1 / 2)" 800 400 "3 / 10", rule_format, OF i] h
  show ?thesis by blast
qed

end
